theory Spec2Isabelle
  imports Complex_Main "HOL-Library.Sublist"
begin

section \<open>The style patch of the region exporter\<close>

text \<open>
  The notebook cell that writes \<^verbatim>\<open>novt_overlays_with_color.reg\<close>:
  \<^verbatim>\<open>
  region_text = all_regions.serialize(format="ds9")
  for inst, value in colors.items():
      region_text = region_text.replace(
          f"tag={{{inst}}}", f"tag={{{inst}}} color={value} point={markers[inst]}"
      )
  \<close>
  Strings are character lists. A dictionary that is iterated is an association list in
  insertion order; a dictionary that is only indexed is a map.
\<close>

datatype error =
    KeyError string
  | LibraryError string

text \<open>
  Python's \<^verbatim>\<open>str.replace(old, new)\<close>: the text is scanned from the left, every
  occurrence of \<open>old\<close> that does not overlap an earlier one is replaced. An empty \<open>old\<close>
  matches before every character and at the end.
\<close>

function py_replace :: "string \<Rightarrow> string \<Rightarrow> string \<Rightarrow> string" where
  "py_replace old new [] = (if old = [] then new else [])"
| "py_replace old new (c # cs) =
     (if old = [] then new @ c # py_replace old new cs
      else if prefix old (c # cs) then new @ py_replace old new (drop (length old) (c # cs))
      else c # py_replace old new cs)"
  by pat_completeness auto
termination
  by (relation "measure (\<lambda>(old, new, text). length text)") auto

text \<open>The two f-strings of the loop body.\<close>

definition tag_label :: "string \<Rightarrow> string" where
  "tag_label inst = ''tag={'' @ inst @ ''}''"

definition style_attrs :: "string \<Rightarrow> string \<Rightarrow> string" where
  "style_attrs val shape = '' color='' @ val @ '' point='' @ shape"

definition styled_label :: "string \<Rightarrow> string \<Rightarrow> string \<Rightarrow> string" where
  "styled_label inst val shape = ''tag={'' @ inst @ ''} color='' @ val @ '' point='' @ shape"

text \<open>
  The loop. \<^verbatim>\<open>markers[inst]\<close> is evaluated in every iteration, before the call of
  \<^verbatim>\<open>replace\<close>, and raises \<^verbatim>\<open>KeyError\<close> for a missing key.
\<close>

fun style_patch :: "(string \<times> string) list \<Rightarrow> (string \<rightharpoonup> string) \<Rightarrow> string \<Rightarrow> error + string" where
  "style_patch [] markers region_text = Inr region_text"
| "style_patch ((inst, val) # rest) markers region_text =
     (case markers inst of
        None \<Rightarrow> Inl (KeyError inst)
      | Some shape \<Rightarrow>
          style_patch rest markers
            (py_replace (tag_label inst) (styled_label inst val shape) region_text))"

text \<open>The two dictionaries of the notebook; the colours come from the widget controls.\<close>

definition novt_colors :: "string \<Rightarrow> string \<Rightarrow> string \<Rightarrow> string \<Rightarrow> string \<Rightarrow> (string \<times> string) list" where
  "novt_colors nirspec_primary nircam_primary nircam_alternate data_primary data_alternate =
     [(''NIRSpec'', nirspec_primary),
      (''NIRCam Short'', nircam_primary),
      (''NIRCam Long'', nircam_alternate),
      (''primary'', data_primary),
      (''filler'', data_alternate)]"

definition novt_markers :: "string \<rightharpoonup> string" where
  "novt_markers =
     [''NIRSpec'' \<mapsto> ''cross'',
      ''NIRCam Short'' \<mapsto> ''cross'',
      ''NIRCam Long'' \<mapsto> ''cross'',
      ''primary'' \<mapsto> ''circle'',
      ''filler'' \<mapsto> ''circle'']"

text \<open>
  The notebook's two dictionaries as one table: each group with its colour and its marker.
\<close>

definition novt_styles ::
  "string \<Rightarrow> string \<Rightarrow> string \<Rightarrow> string \<Rightarrow> string \<Rightarrow> (string \<times> string \<times> string) list" where
  "novt_styles c1 c2 c3 c4 c5 =
     [(''NIRSpec'', c1, ''cross''), (''NIRCam Short'', c2, ''cross''),
      (''NIRCam Long'', c3, ''cross''), (''primary'', c4, ''circle''),
      (''filler'', c5, ''circle'')]"

text \<open>
  The lines of a region file, joined by the line break (byte 10). The serialized text holds one
  region on each line.
\<close>

fun join_lines :: "string list \<Rightarrow> string" where
  "join_lines [] = []"
| "join_lines [l] = l"
| "join_lines (l # ls) = l @ CHR 0x0A # join_lines ls"

text \<open>
  The style patch in the words of the specification, as a single pass over the text:
  wherever the tag label of a configured group starts, the label is copied and the attributes
  \<^verbatim>\<open> color=<value> point=<shape>\<close> are appended immediately after it; every other
  character is copied. A style is a group name with its colour and its marker shape.
\<close>

function append_attrs :: "(string \<times> string \<times> string) list \<Rightarrow> string \<Rightarrow> string" where
  "append_attrs styles [] = []"
| "append_attrs styles (c # cs) =
     (case find (\<lambda>(inst, val, shape). prefix (tag_label inst) (c # cs)) styles of
        Some (inst, val, shape) \<Rightarrow>
          tag_label inst @ style_attrs val shape @
            append_attrs styles (drop (length (tag_label inst)) (c # cs))
      | None \<Rightarrow> c # append_attrs styles cs)"
  by pat_completeness auto
termination
  by (relation "measure (\<lambda>(styles, rt). length rt)") (auto simp: tag_label_def)

text \<open>
  Styles for which the textual patch cannot interfere with itself: the group name holds no
  brace (it is the text between the braces of the label), the inserted attributes hold no
  opening brace and do not end in a proper beginning of \<^verbatim>\<open>tag={\<close>.
\<close>

definition well_formed_style :: "string \<times> string \<times> string \<Rightarrow> bool" where
  "well_formed_style = (\<lambda>(inst, val, shape).
     CHR ''{'' \<notin> set inst \<and> CHR ''}'' \<notin> set inst \<and>
     CHR ''{'' \<notin> set (style_attrs val shape) \<and>
     (\<forall>p \<in> {''t'', ''ta'', ''tag'', ''tag=''}. \<not> suffix p (style_attrs val shape)))"

text \<open>
  What a pass may change, in the words of the specification: every character of the text is
  kept, and the inserted string stands only immediately after an occurrence of the label,
  which is kept whole.
\<close>

inductive inserted_after :: "string \<Rightarrow> string \<Rightarrow> string \<Rightarrow> string \<Rightarrow> bool"
  for old :: string and ins :: string where
  nil: "inserted_after old ins [] []"
| keep: "inserted_after old ins rt out \<Longrightarrow> inserted_after old ins (c # rt) (c # out)"
| attrs: "inserted_after old ins rt out \<Longrightarrow> inserted_after old ins (old @ rt) (old @ ins @ out)"

text \<open>
  The loop as a chain of such passes, one for each group in the order of the dictionary, each
  working on the text that the pass before it left.
\<close>

inductive patch_passes ::
  "(string \<times> string) list \<Rightarrow> (string \<rightharpoonup> string) \<Rightarrow> string \<Rightarrow> string \<Rightarrow> bool" where
  finished: "patch_passes [] markers rt rt"
| pass: "markers inst = Some shape \<Longrightarrow>
         inserted_after (tag_label inst) (style_attrs val shape) rt mid \<Longrightarrow>
         patch_passes rest markers mid out \<Longrightarrow>
         patch_passes ((inst, val) # rest) markers rt out"

text \<open>
  The same for a whole table of styles against the serialized text itself: the attributes of
  a group stand only immediately after a tag label of that group, and everything else is the
  serialized text, character for character.
\<close>

inductive attrs_inserted :: "(string \<times> string \<times> string) list \<Rightarrow> string \<Rightarrow> string \<Rightarrow> bool"
  for styles :: "(string \<times> string \<times> string) list" where
  nil: "attrs_inserted styles [] []"
| keep: "attrs_inserted styles rt out \<Longrightarrow> attrs_inserted styles (c # rt) (c # out)"
| attrs: "(inst, val, shape) \<in> set styles \<Longrightarrow> attrs_inserted styles rt out \<Longrightarrow>
          attrs_inserted styles (tag_label inst @ rt) (tag_label inst @ style_attrs val shape @ out)"


section \<open>The operations behind the notebook's calls\<close>

text \<open>
  The notebooks call \<^verbatim>\<open>jwst_novt.footprints\<close> and \<^verbatim>\<open>jwst_novt.timeline\<close>; the two modules
  themselves are not among the sources. They are modelled below from the specification and
  from the notebook's description of them. The libraries they wrap (aperture geometry,
  visibility, table reading) are parameters that return a value or raise.
\<close>

type_synonym point = "real \<times> real"

datatype channel = Long | Short

text \<open>
  Modelled from the spec: the region objects that the footprint functions and the catalog
  reader of \<^verbatim>\<open>jwst_novt.footprints\<close> return. An aperture region is a named aperture, a polygon
  of sky coordinates, its position angle and the offset of its dither or mosaic variant; a
  catalog source is a point.
\<close>

datatype region =
    PolygonSkyRegion string "point list" real point
  | PointSkyRegion point

text \<open>
  Modelled from the spec: the aperture-geometry library that \<^verbatim>\<open>jwst_novt.footprints\<close> asks.
  \<open>corners\<close> gives the polygon vertices of a named aperture, and raises for a name it does
  not know; \<open>to_sky ra dec pa offset\<close> is the coordinate transform (rotation by the position
  angle about the target, after the offset); the name lists are the default apertures;
  \<open>dither_offsets\<close> is the table of dither patterns; \<open>mosaic_tiles\<close> places the two tiles of a
  mosaic.
\<close>

record aperture_library =
  corners :: "string \<Rightarrow> error + point list"
  to_sky :: "real \<Rightarrow> real \<Rightarrow> real \<Rightarrow> point \<Rightarrow> point \<Rightarrow> point"
  nirspec_names :: "string list"
  nircam_names :: "channel \<Rightarrow> string list"
  dither_offsets :: "string \<Rightarrow> error + point list"
  mosaic_tiles :: "point \<Rightarrow> point \<times> point"

text \<open>A loop that calls a function that may raise: the first error ends it.\<close>

fun collect :: "('a \<Rightarrow> error + 'b) \<Rightarrow> 'a list \<Rightarrow> error + 'b list" where
  "collect f [] = Inr []"
| "collect f (x # xs) =
     (case f x of
        Inl e \<Rightarrow> Inl e
      | Inr y \<Rightarrow> (case collect f xs of Inl e \<Rightarrow> Inl e | Inr ys \<Rightarrow> Inr (y # ys)))"

text \<open>
  Modelled from the spec: the region of one aperture in \<^verbatim>\<open>jwst_novt.footprints\<close>: the
  library's vertices of the named aperture, each transformed to the sky.
\<close>

definition aperture_region ::
  "'x aperture_library_scheme \<Rightarrow> real \<Rightarrow> real \<Rightarrow> real \<Rightarrow> point \<Rightarrow> string \<Rightarrow> error + region" where
  "aperture_region lib ra dec pa off name =
     (case corners lib name of
        Inl e \<Rightarrow> Inl e
      | Inr vs \<Rightarrow> Inr (PolygonSkyRegion name (map (to_sky lib ra dec pa off) vs) pa off))"

text \<open>
  Modelled from the spec: the footprint builder of \<^verbatim>\<open>jwst_novt.footprints\<close> for a list of
  aperture names at one pointing: one polygon for each name, in the order of the names, after
  a point for the aperture center when \<^verbatim>\<open>include_center\<close> is set. The specification says
  nothing on the center point; the claims concern \<^verbatim>\<open>include_center=False\<close>.
\<close>

definition footprint ::
  "'x aperture_library_scheme \<Rightarrow> real \<Rightarrow> real \<Rightarrow> real \<Rightarrow> point \<Rightarrow> bool \<Rightarrow> string list
     \<Rightarrow> error + region list" where
  "footprint lib ra dec pa off include_center names =
     (case collect (aperture_region lib ra dec pa off) names of
        Inl e \<Rightarrow> Inl e
      | Inr polygons \<Rightarrow>
          Inr ((if include_center then [PointSkyRegion (to_sky lib ra dec pa off (0, 0))] else [])
               @ polygons))"

text \<open>
  Modelled from the spec: \<^verbatim>\<open>fp.nirspec_footprint(ra, dec, pa, include_center, apertures)\<close>.
  Without \<^verbatim>\<open>apertures\<close> the footprint holds all the NIRSpec apertures.
\<close>

definition nirspec_footprint ::
  "'x aperture_library_scheme \<Rightarrow> real \<Rightarrow> real \<Rightarrow> real \<Rightarrow> bool \<Rightarrow> string list option
     \<Rightarrow> error + region list" where
  "nirspec_footprint lib ra dec pa include_center apertures =
     footprint lib ra dec pa (0, 0) include_center
       (case apertures of None \<Rightarrow> nirspec_names lib | Some names \<Rightarrow> names)"


text \<open>
  Modelled from the spec: \<^verbatim>\<open>fp.nircam_short_footprint(ra, dec, pa, include_center)\<close>.
\<close>

definition nircam_short_footprint ::
  "'x aperture_library_scheme \<Rightarrow> real \<Rightarrow> real \<Rightarrow> real \<Rightarrow> bool \<Rightarrow> error + region list" where
  "nircam_short_footprint lib ra dec pa include_center =
     footprint lib ra dec pa (0, 0) include_center (nircam_names lib Short)"

text \<open>
  Modelled from the spec: the dither points of \<^verbatim>\<open>fp.nircam_dither_footprint\<close>: without a
  pattern the one pointing at the target, with a pattern the offsets of the pattern's table
  entry (an unknown pattern raises).
\<close>

definition dither_points :: "'x aperture_library_scheme \<Rightarrow> string option \<Rightarrow> error + point list" where
  "dither_points lib dither_pattern =
     (case dither_pattern of None \<Rightarrow> Inr [(0, 0)] | Some pattern \<Rightarrow> dither_offsets lib pattern)"

text \<open>
  Modelled from the spec: the tiles of \<^verbatim>\<open>fp.nircam_dither_footprint\<close>: one tile at the target,
  or the two tiles of the mosaic.
\<close>

definition tiles :: "'x aperture_library_scheme \<Rightarrow> bool \<Rightarrow> point \<Rightarrow> point list" where
  "tiles lib add_mosaic mosaic_offset =
     (if add_mosaic
      then [fst (mosaic_tiles lib mosaic_offset), snd (mosaic_tiles lib mosaic_offset)]
      else [(0, 0)])"

text \<open>
  Modelled from the spec: the pointings of \<^verbatim>\<open>fp.nircam_dither_footprint\<close>: every dither
  point at every tile.
\<close>

definition pointings :: "point list \<Rightarrow> point list \<Rightarrow> point list" where
  "pointings ts ds = concat (map (\<lambda>t. map (\<lambda>d. (fst t + fst d, snd t + snd d)) ds) ts)"

text \<open>
  Modelled from the spec:
  \<^verbatim>\<open>fp.nircam_dither_footprint(ra, dec, pa, channel, include_center, dither_pattern, add_mosaic, mosaic_offset)\<close>:
  the footprint of the channel's apertures at every pointing.
\<close>

definition nircam_dither_footprint ::
  "'x aperture_library_scheme \<Rightarrow> real \<Rightarrow> real \<Rightarrow> real \<Rightarrow> channel \<Rightarrow> bool \<Rightarrow> string option \<Rightarrow> bool
     \<Rightarrow> point \<Rightarrow> error + region list" where
  "nircam_dither_footprint lib ra dec pa chan include_center dither_pattern add_mosaic mosaic_offset =
     (case dither_points lib dither_pattern of
        Inl e \<Rightarrow> Inl e
      | Inr ds \<Rightarrow>
          (case collect (\<lambda>off. footprint lib ra dec pa off include_center (nircam_names lib chan))
                  (pointings (tiles lib add_mosaic mosaic_offset) ds) of
             Inl e \<Rightarrow> Inl e
           | Inr fs \<Rightarrow> Inr (concat fs)))"

subsection \<open>Timeline\<close>







subsection \<open>Catalog\<close>

datatype flag = Primary | Filler

text \<open>
  Modelled from the spec: a row of the catalog file read by \<^verbatim>\<open>fp.source_catalog\<close>: right
  ascension and declination in degrees and the optional flag, P for primary and F for filler.
\<close>

record catalog_row =
  row_ra :: real
  row_dec :: real
  row_flag :: "flag option"

text \<open>
  Modelled from the spec: the flag that \<^verbatim>\<open>fp.source_catalog\<close> sorts a row by. The
  specification does not say where a row without a flag goes: that is the parameter
  \<open>unflagged\<close>.
\<close>

definition flag_of :: "flag \<Rightarrow> catalog_row \<Rightarrow> flag" where
  "flag_of unflagged r = (case row_flag r of None \<Rightarrow> unflagged | Some f \<Rightarrow> f)"

text \<open>
  Modelled from the spec: the point region that \<^verbatim>\<open>fp.source_catalog\<close> makes of a row.
\<close>

definition source_point :: "catalog_row \<Rightarrow> region" where
  "source_point r = PointSkyRegion (row_ra r, row_dec r)"

text \<open>
  Modelled from the spec: \<^verbatim>\<open>fp.source_catalog(catalog_file)\<close>, returning the primary and the
  filler collection. The table reader is the library's and raises on a malformed row.
\<close>

definition source_catalog ::
  "(string \<Rightarrow> error + catalog_row list) \<Rightarrow> flag \<Rightarrow> string \<Rightarrow> error + region list \<times> region list" where
  "source_catalog read_table unflagged catalog_file =
     (case read_table catalog_file of
        Inl e \<Rightarrow> Inl e
      | Inr rows \<Rightarrow>
          Inr (map source_point (filter (\<lambda>r. flag_of unflagged r = Primary) rows),
               map source_point (filter (\<lambda>r. flag_of unflagged r = Filler) rows)))"

text \<open>
  A small aperture library, visibility library and table reader, to run the operations on.
\<close>

definition demo_library :: aperture_library where
  "demo_library =
     \<lparr>corners = (\<lambda>name. if name \<in> {''NRS_FULL_MSA1'', ''NRS_FULL_MSA2'', ''NRCALL_FULL''}
                         then Inr [(0, 0), (1, 0), (1, 1), (0, 1)]
                         else Inl (LibraryError name)),
      to_sky = (\<lambda>ra dec pa off v. (ra + fst off + fst v, dec + snd off + snd v)),
      nirspec_names = [''NRS_FULL_MSA1'', ''NRS_FULL_MSA2''],
      nircam_names = (\<lambda>chan. [''NRCALL_FULL'']),
      dither_offsets = (\<lambda>pattern. if pattern = ''FULL3''
                                   then Inr [(0, 0), (1, 1), (2, 2)]
                                   else Inl (LibraryError pattern)),
      mosaic_tiles = (\<lambda>off. ((0, 0), off))\<rparr>"



definition demo_read_table :: "string \<Rightarrow> error + catalog_row list" where
  "demo_read_table catalog_file =
     (if catalog_file = ''m51.radec''
      then Inr [\<lparr>row_ra = 202, row_dec = 47, row_flag = Some Primary\<rparr>,
                \<lparr>row_ra = 203, row_dec = 48, row_flag = Some Filler\<rparr>,
                \<lparr>row_ra = 204, row_dec = 49, row_flag = None\<rparr>]
      else Inl (LibraryError catalog_file))"


section \<open>Properties of the style patch\<close>

lemma styled_label_eq: "styled_label inst val shape = tag_label inst @ style_attrs val shape"
  by (simp add: styled_label_def tag_label_def style_attrs_def)

lemma tag_label_nonempty [simp]: "tag_label inst \<noteq> []"
  by (simp add: tag_label_def)

lemma py_replace_match:
  assumes "old \<noteq> []"
  shows "py_replace old new (old @ r) = new @ py_replace old new r"
proof -
  obtain c cs where "old = c # cs" using assms by (cases old) auto
  then show ?thesis by simp
qed

lemma py_replace_skip:
  "old \<noteq> [] \<Longrightarrow> \<not> prefix old (c # cs) \<Longrightarrow> py_replace old new (c # cs) = c # py_replace old new cs"
  by simp

lemma py_replace_empty_old:
  "py_replace [] new rt = concat (map (\<lambda>c. new @ [c]) rt) @ new"
  by (induction rt) simp_all

declare py_replace.simps(2) [simp del]

lemma py_replace_subseq: "subseq rt (py_replace old (old @ suf) rt)"
proof (cases "old = []")
  case True
  have "subseq rt (concat (map (\<lambda>c. suf @ [c]) rt) @ suf)"
  proof (induction rt)
    case Nil
    show ?case by simp
  next
    case (Cons c cs)
    have "subseq ([c] @ cs) ((suf @ [c]) @ (concat (map (\<lambda>c. suf @ [c]) cs) @ suf))"
      by (rule list_emb_append_mono) (use Cons in \<open>simp_all add: list_emb_append2\<close>)
    then show ?case by simp
  qed
  with True show ?thesis by (simp add: py_replace_empty_old)
next
  case False
  show ?thesis
  proof (induction "length rt" arbitrary: rt rule: less_induct)
    case less
    show ?case
    proof (cases rt)
      case Nil
      then show ?thesis by simp
    next
      case (Cons c cs)
      show ?thesis
      proof (cases "prefix old rt")
        case True
        then obtain r where r: "rt = old @ r" by (auto simp: prefix_def)
        have "length r < length rt" using r False by simp
        then have "subseq r (py_replace old (old @ suf) r)" by (rule less)
        then have "subseq (old @ r) (old @ (suf @ py_replace old (old @ suf) r))"
          by (intro list_emb_append_mono) (simp_all add: list_emb_append2)
        then show ?thesis using r False by (simp add: py_replace_match)
      next
        case nop: False
        have "subseq cs (py_replace old (old @ suf) cs)" using Cons by (intro less) simp
        then show ?thesis using nop False Cons by (simp add: py_replace_skip)
      qed
    qed
  qed
qed

lemma py_replace_absent:
  "old \<noteq> [] \<Longrightarrow> \<not> sublist old rt \<Longrightarrow> py_replace old new rt = rt"
proof (induction rt)
  case Nil
  then show ?case by simp
next
  case (Cons c cs)
  have "\<not> prefix old (c # cs)" using Cons.prems(2) by (auto dest: prefix_imp_sublist)
  moreover have "\<not> sublist old cs" using Cons.prems(2) by (auto simp: sublist_Cons_right)
  ultimately show ?case using Cons by (simp add: py_replace_skip)
qed

lemma py_replace_sep:
  assumes "old \<noteq> []" "sep \<notin> set old"
  shows "py_replace old new (a @ sep # b) = py_replace old new a @ sep # py_replace old new b"
proof (induction "length a" arbitrary: a rule: less_induct)
  case less
  have no_straddle: "prefix old (u @ sep # b) \<Longrightarrow> prefix old u" for u
    using assms(2) by (auto simp: prefix_append prefix_Cons)
  show ?case
  proof (cases a)
    case Nil
    have "\<not> prefix old (sep # b)" using no_straddle[of "[]"] assms(1) by auto
    then show ?thesis using Nil assms(1) by (simp add: py_replace_skip)
  next
    case (Cons c cs)
    show ?thesis
    proof (cases "prefix old a")
      case True
      then obtain r where r: "a = old @ r" by (auto simp: prefix_def)
      have "length r < length a" using r assms(1) by simp
      then have "py_replace old new (r @ sep # b) = py_replace old new r @ sep # py_replace old new b"
        by (rule less)
      then show ?thesis using r assms(1) py_replace_match[of old new "r @ sep # b"]
        by (simp add: py_replace_match)
    next
      case False
      then have "\<not> prefix old (c # cs @ sep # b)" using no_straddle[of a] Cons by auto
      moreover have "py_replace old new (cs @ sep # b) = py_replace old new cs @ sep # py_replace old new b"
        using Cons by (intro less) simp
      ultimately show ?thesis using False Cons assms(1) by (simp add: py_replace_skip)
    qed
  qed
qed

lemma style_patch_error_indep:
  "style_patch colors markers a = Inl e \<Longrightarrow> style_patch colors markers b = Inl e"
  by (induction colors markers a arbitrary: b rule: style_patch.induct)
     (auto split: option.splits)

lemma style_patch_sep:
  assumes "\<forall>(inst, val) \<in> set colors. sep \<notin> set (tag_label inst)"
    and "style_patch colors markers a = Inr a'"
    and "style_patch colors markers b = Inr b'"
  shows "style_patch colors markers (a @ sep # b) = Inr (a' @ sep # b')"
  using assms
proof (induction colors markers a arbitrary: b a' b' rule: style_patch.induct)
  case (1 markers region_text)
  then show ?case by simp
next
  case (2 inst val rest markers region_text)
  then show ?case
    by (auto split: option.splits simp: py_replace_sep)
qed

lemma style_patch_total_on:
  "style_patch colors markers a = Inr a' \<Longrightarrow> \<exists>b'. style_patch colors markers b = Inr b'"
  using style_patch_error_indep[of colors markers b _ a]
  by (cases "style_patch colors markers b") auto

lemma style_patch_subseq:
  "style_patch colors markers rt = Inr patched \<Longrightarrow> subseq rt patched"
proof (induction colors markers rt arbitrary: patched rule: style_patch.induct)
  case (1 markers region_text)
  then show ?case by simp
next
  case (2 inst val rest markers region_text)
  then obtain shape where s: "markers inst = Some shape" by (auto split: option.splits)
  let ?t = "py_replace (tag_label inst) (styled_label inst val shape) region_text"
  have "subseq region_text ?t" unfolding styled_label_eq by (rule py_replace_subseq)
  moreover have "subseq ?t patched" using 2 s by simp
  ultimately show ?case by (rule subseq_order.trans)
qed

lemma style_patch_absent:
  "style_patch colors markers rt = Inr patched \<Longrightarrow>
   \<forall>(inst, val) \<in> set colors. \<not> sublist (tag_label inst) rt \<Longrightarrow> patched = rt"
  by (induction colors markers rt arbitrary: patched rule: style_patch.induct)
     (auto split: option.splits simp: py_replace_absent)

lemma style_patch_lines:
  assumes "\<forall>(inst, val) \<in> set colors. CHR 0x0A \<notin> set (tag_label inst)"
    and "style_patch colors markers (join_lines ls) = Inr patched"
  shows "\<exists>ls'. patched = join_lines ls' \<and> length ls' = length ls \<and>
           (\<forall>i < length ls. style_patch colors markers (ls ! i) = Inr (ls' ! i))"
  using assms(2)
proof (induction ls arbitrary: patched rule: join_lines.induct)
  case 1
  then have "patched = []"
    using style_patch_absent[of colors markers "[]" patched] by (auto simp: tag_label_def)
  then show ?case by (intro exI[of _ "[]"]) simp
next
  case (2 l)
  then show ?case by (intro exI[of _ "[patched]"]) simp
next
  case (3 l v va)
  let ?rest = "join_lines (v # va)"
  obtain l' where l': "style_patch colors markers l = Inr l'"
    using style_patch_total_on[OF 3(2)] by blast
  obtain r' where r': "style_patch colors markers ?rest = Inr r'"
    using style_patch_total_on[OF 3(2)] by blast
  from 3(1)[OF r'] obtain ls' where ls': "r' = join_lines ls'" "length ls' = length (v # va)"
    "\<forall>i < length (v # va). style_patch colors markers ((v # va) ! i) = Inr (ls' ! i)" by blast
  have "style_patch colors markers (l @ CHR 0x0A # ?rest) = Inr (l' @ CHR 0x0A # r')"
    using style_patch_sep[OF assms(1) l' r'] .
  then have p: "patched = l' @ CHR 0x0A # r'" using 3(2) by simp
  obtain x xs where xs: "ls' = x # xs" using ls'(2) by (cases ls') auto
  have "patched = join_lines (l' # ls')" using p ls'(1) xs by simp
  moreover have "\<forall>i < length (l # v # va). style_patch colors markers ((l # v # va) ! i) = Inr ((l' # ls') ! i)"
    using l' ls'(3) by (auto simp: nth_Cons split: nat.splits)
  ultimately show ?case using ls'(2) by (intro exI[of _ "l' # ls'"]) simp
qed

subsection \<open>The patch as a single pass\<close>

declare append_attrs.simps(2) [simp del]

lemma append_attrs_miss:
  assumes "\<forall>s \<in> set styles. \<not> prefix (tag_label (fst s)) (c # cs)"
  shows "append_attrs styles (c # cs) = c # append_attrs styles cs"
proof -
  have "find (\<lambda>(inst, val, shape). prefix (tag_label inst) (c # cs)) styles = None"
    using assms by (auto simp: find_None_iff)
  then show ?thesis by (simp add: append_attrs.simps(2))
qed

lemma append_attrs_hit:
  assumes "find (\<lambda>(inst, val, shape). prefix (tag_label inst) (tag_label g @ r)) styles = Some (g, v, m)"
  shows "append_attrs styles (tag_label g @ r) = tag_label g @ style_attrs v m @ append_attrs styles r"
proof -
  obtain c cs where c: "tag_label g @ r = c # cs" by (cases "tag_label g @ r") auto
  have "drop (length (tag_label g)) (c # cs) = r" using c[symmetric] by simp
  then show ?thesis using assms unfolding c by (simp add: append_attrs.simps(2))
qed

lemma py_replace_walk:
  "old \<noteq> [] \<Longrightarrow> \<forall>k < length w. \<not> prefix old (drop k w @ r) \<Longrightarrow>
   py_replace old new (w @ r) = w @ py_replace old new r"
proof (induction w)
  case Nil
  then show ?case by simp
next
  case (Cons c w)
  have "\<not> prefix old (c # w @ r)" using Cons.prems(2) by force
  moreover have "\<forall>k < length w. \<not> prefix old (drop k w @ r)"
  proof (intro allI impI)
    fix k assume "k < length w"
    then have "\<not> prefix old (drop (Suc k) (c # w) @ r)" using Cons.prems(2) by (metis Suc_less_eq length_Cons)
    then show "\<not> prefix old (drop k w @ r)" by simp
  qed
  ultimately show ?case using Cons by (simp add: py_replace_skip)
qed

lemma append_attrs_walk:
  "\<forall>k < length w. \<forall>s \<in> set styles. \<not> prefix (tag_label (fst s)) (drop k w @ r) \<Longrightarrow>
   append_attrs styles (w @ r) = w @ append_attrs styles r"
proof (induction w)
  case Nil
  then show ?case by simp
next
  case (Cons c w)
  have here: "\<forall>s \<in> set styles. \<not> prefix (tag_label (fst s)) (c # w @ r)"
    using Cons.prems by force
  have "\<forall>k < length w. \<forall>s \<in> set styles. \<not> prefix (tag_label (fst s)) (drop k w @ r)"
  proof (intro allI impI)
    fix k assume "k < length w"
    then have "\<forall>s \<in> set styles. \<not> prefix (tag_label (fst s)) (drop (Suc k) (c # w) @ r)"
      using Cons.prems by (metis Suc_less_eq length_Cons)
    then show "\<forall>s \<in> set styles. \<not> prefix (tag_label (fst s)) (drop k w @ r)" by simp
  qed
  then have "append_attrs styles (w @ r) = w @ append_attrs styles r" by (rule Cons.IH)
  then show ?case using append_attrs_miss[OF here] by simp
qed

subsection \<open>Where a tag label can start\<close>

lemma no_tag_in_plain:
  assumes "CHR ''{'' \<notin> set u" "u \<noteq> []" "prefix (''tag={'' @ x) (u @ r)"
  shows "u \<in> {''t'', ''ta'', ''tag'', ''tag=''}"
proof -
  obtain z where z: "u @ r = ''tag={'' @ x @ z" using assms(3) by (auto simp: prefix_def)
  show ?thesis
  proof (cases u)
    case Nil then show ?thesis using assms(2) by simp
  next
    case (Cons a u1)
    show ?thesis
    proof (cases u1)
      case Nil then show ?thesis using z Cons by simp
    next
      case (Cons b u2)
      note c2 = Cons
      show ?thesis
      proof (cases u2)
        case Nil then show ?thesis using z \<open>u = a # u1\<close> c2 by simp
      next
        case (Cons c u3)
        note c3 = Cons
        show ?thesis
        proof (cases u3)
          case Nil then show ?thesis using z \<open>u = a # u1\<close> c2 c3 by simp
        next
          case (Cons d u4)
          note c4 = Cons
          show ?thesis
          proof (cases u4)
            case Nil then show ?thesis using z \<open>u = a # u1\<close> c2 c3 c4 by simp
          next
            case (Cons e u5)
            then have "e = CHR ''{''" using z \<open>u = a # u1\<close> c2 c3 c4 by simp
            then show ?thesis using assms(1) \<open>u = a # u1\<close> c2 c3 c4 Cons by simp
          qed
        qed
      qed
    qed
  qed
qed

lemma no_tag_before_close:
  assumes "CHR ''{'' \<notin> set u"
  shows "\<not> prefix (''tag={'' @ x) (u @ CHR ''}'' # r)"
proof
  assume p: "prefix (''tag={'' @ x) (u @ CHR ''}'' # r)"
  show False
  proof (cases "u = []")
    case True
    then show ?thesis using p by simp
  next
    case False
    from no_tag_in_plain[OF assms False p] show ?thesis using p by auto
  qed
qed

lemma first_sep_unique:
  "x \<notin> set g \<Longrightarrow> x \<notin> set h \<Longrightarrow> g @ x # a = h @ x # b \<Longrightarrow> g = h"
proof (induction g arbitrary: h)
  case Nil
  then show ?case by (cases h) auto
next
  case (Cons c g)
  then show ?case by (cases h) auto
qed

lemma label_prefix_same:
  assumes "CHR ''}'' \<notin> set g" "CHR ''}'' \<notin> set h"
    and "prefix (tag_label g) x" "prefix (tag_label h) x"
  shows "g = h"
proof -
  obtain z1 where z1: "x = ''tag={'' @ g @ CHR ''}'' # z1"
    using assms(3) by (auto simp: tag_label_def prefix_def)
  obtain z2 where z2: "x = ''tag={'' @ h @ CHR ''}'' # z2"
    using assms(4) by (auto simp: tag_label_def prefix_def)
  from z1 z2 have "g @ CHR ''}'' # z1 = h @ CHR ''}'' # z2" by simp
  with assms(1,2) show ?thesis by (rule first_sep_unique)
qed

text \<open>No label starts strictly inside a label.\<close>

lemma no_label_inside_label:
  assumes "CHR ''{'' \<notin> set h" "0 < k" "k < length (tag_label h)"
  shows "\<not> prefix (tag_label g) (drop k (tag_label h) @ r)"
proof (cases "k < 5")
  case True
  then have "k = 1 \<or> k = 2 \<or> k = 3 \<or> k = 4" using assms(2) by arith
  then show ?thesis by (auto simp: tag_label_def)
next
  case False
  then obtain j where j: "k = j + 5"
    by (metis add.commute le_iff_add not_less)
  have jl: "j \<le> length h" using assms(3) j by (simp add: tag_label_def)
  have "drop (j + 5) (''tag={'' @ h @ ''}'') = drop j (h @ ''}'')"
    by (simp add: drop_Cons' numeral_eq_Suc)
  then have d: "drop k (tag_label h) = drop (k - 5) h @ ''}''"
    using j jl by (simp add: tag_label_def)
  have "CHR ''{'' \<notin> set (drop (k - 5) h)" using assms(1) by (meson in_set_dropD)
  from no_tag_before_close[OF this, of "g @ ''}''" r]
  show ?thesis unfolding d by (simp add: tag_label_def)
qed

text \<open>No label starts inside inserted attributes.\<close>

lemma no_label_inside_attrs:
  assumes "CHR ''{'' \<notin> set S" "\<forall>p \<in> {''t'', ''ta'', ''tag'', ''tag=''}. \<not> suffix p S"
    and "k < length S"
  shows "\<not> prefix (tag_label g) (drop k S @ r)"
proof
  assume p: "prefix (tag_label g) (drop k S @ r)"
  have 1: "CHR ''{'' \<notin> set (drop k S)" using assms(1) by (meson in_set_dropD)
  have 2: "drop k S \<noteq> []" using assms(3) by simp
  from p have "prefix (''tag={'' @ (g @ ''}'')) (drop k S @ r)" by (simp add: tag_label_def)
  from no_tag_in_plain[OF 1 2 this] have "drop k S \<in> {''t'', ''ta'', ''tag'', ''tag=''}" .
  moreover have "suffix (drop k S) S" by (rule suffix_drop)
  ultimately show False using assms(2) by metis
qed

lemma no_label_inside_styled:
  assumes "CHR ''{'' \<notin> set h" "CHR ''{'' \<notin> set S" "\<forall>p \<in> {''t'', ''ta'', ''tag'', ''tag=''}. \<not> suffix p S"
    and "0 < k" "k < length (tag_label h @ S)"
  shows "\<not> prefix (tag_label g) (drop k (tag_label h @ S) @ r)"
proof (cases "k < length (tag_label h)")
  case True
  have "drop k (tag_label h @ S) @ r = drop k (tag_label h) @ (S @ r)" using True by simp
  then show ?thesis using no_label_inside_label[OF assms(1,4) True, of g "S @ r"] by simp
next
  case False
  then have "drop k (tag_label h @ S) @ r = drop (k - length (tag_label h)) S @ r" by simp
  moreover have "k - length (tag_label h) < length S" using False assms(5) by simp
  ultimately show ?thesis using no_label_inside_attrs[OF assms(2,3), of _ g r] by simp
qed

lemma find_SomeD: "find P xs = Some x \<Longrightarrow> P x \<and> x \<in> set xs"
  by (auto simp: find_Some_iff)

lemma find_append:
  "find P (xs @ ys) = (case find P xs of None \<Rightarrow> find P ys | Some x \<Rightarrow> Some x)"
  by (induction xs) simp_all

lemma well_formed_styleD:
  assumes "well_formed_style (h, v, m)"
  shows "CHR ''{'' \<notin> set h" "CHR ''}'' \<notin> set h" "CHR ''{'' \<notin> set (style_attrs v m)"
    "\<forall>p \<in> {''t'', ''ta'', ''tag'', ''tag=''}. \<not> suffix p (style_attrs v m)"
  using assms by (simp_all add: well_formed_style_def)

lemma append_attrs_agree:
  assumes "\<forall>s \<in> set styles. CHR ''}'' \<notin> set (fst s)"
  shows "CHR ''}'' \<notin> set q \<Longrightarrow> prefix (q @ ''}'') (append_attrs styles rt) \<Longrightarrow> prefix (q @ ''}'') rt"
proof (induction rt arbitrary: q)
  case Nil
  then show ?case by simp
next
  case (Cons c cs)
  show ?case
  proof (cases "find (\<lambda>(inst, val, shape). prefix (tag_label inst) (c # cs)) styles")
    case None
    then have out: "append_attrs styles (c # cs) = c # append_attrs styles cs"
      by (simp add: append_attrs.simps(2))
    show ?thesis
    proof (cases q)
      case Nil
      then show ?thesis using Cons.prems(2) out by simp
    next
      case (Cons c' q')
      then have "c' = c" "prefix (q' @ ''}'') (append_attrs styles cs)"
        using Cons.prems(2) out by simp_all
      moreover have "CHR ''}'' \<notin> set q'" using Cons.prems(1) Cons by simp
      ultimately show ?thesis using Cons.IH[of q'] Cons by simp
    qed
  next
    case (Some s)
    obtain h v m where s: "s = (h, v, m)" by (cases s) auto
    from find_SomeD[OF Some] have hp: "prefix (tag_label h) (c # cs)" and hin: "(h, v, m) \<in> set styles"
      using s by auto
    then obtain r where r: "c # cs = tag_label h @ r" by (auto simp: prefix_def)
    have hb: "CHR ''}'' \<notin> set h" using assms hin by force
    have out: "append_attrs styles (c # cs) = tag_label h @ style_attrs v m @ append_attrs styles (drop (length (tag_label h)) (c # cs))"
      using Some s by (simp add: append_attrs.simps(2))
    from Cons.prems(2) obtain z where z: "tag_label h @ style_attrs v m @ append_attrs styles (drop (length (tag_label h)) (c # cs)) = (q @ ''}'') @ z"
      unfolding out by (auto simp: prefix_def)
    have "q @ CHR ''}'' # z = (''tag={'' @ h) @ CHR ''}'' # (style_attrs v m @ append_attrs styles (drop (length (tag_label h)) (c # cs)))"
      using z by (simp add: tag_label_def)
    then have "q = ''tag={'' @ h"
      using first_sep_unique[of "CHR ''}''" q "''tag={'' @ h"] Cons.prems(1) hb by simp
    then have "q @ ''}'' = tag_label h" by (simp add: tag_label_def)
    then show ?thesis using hp by simp
  qed
qed

lemma py_replace_after_append_attrs:
  assumes d: "distinct (map fst (styles @ [(g, v, m)]))"
    and wf: "\<forall>s \<in> set (styles @ [(g, v, m)]). well_formed_style s"
  shows "py_replace (tag_label g) (tag_label g @ style_attrs v m) (append_attrs styles rt)
         = append_attrs (styles @ [(g, v, m)]) rt"
proof (induction "length rt" arbitrary: rt rule: less_induct)
  case less
  let ?old = "tag_label g" and ?new = "tag_label g @ style_attrs v m"
  let ?ext = "styles @ [(g, v, m)]"
  have gwf: "well_formed_style (g, v, m)" using wf by simp
  note gD = well_formed_styleD[OF gwf]
  have close: "\<forall>s \<in> set styles. CHR ''}'' \<notin> set (fst s)"
    using wf by (auto simp: well_formed_style_def)
  show ?case
  proof (cases rt)
    case Nil
    then show ?thesis by simp
  next
    case (Cons c cs)
    let ?P = "\<lambda>(inst, val, shape). prefix (tag_label inst) (c # cs)"
    show ?thesis
    proof (cases "find ?P styles")
      case (Some s)
      obtain h vh mh where s: "s = (h, vh, mh)" by (cases s) auto
      from find_SomeD[OF Some] have hp: "prefix (tag_label h) (c # cs)" and hin: "(h, vh, mh) \<in> set styles"
        using s by auto
      then obtain r where r: "rt = tag_label h @ r" using Cons by (auto simp: prefix_def)
      have hwf: "well_formed_style (h, vh, mh)" using wf hin by simp
      note hD = well_formed_styleD[OF hwf]
      have gh: "g \<noteq> h" using d hin by force
      have f1: "find (\<lambda>(inst, val, shape). prefix (tag_label inst) (tag_label h @ r)) styles = Some (h, vh, mh)"
        using Some s r Cons by simp
      then have f2: "find (\<lambda>(inst, val, shape). prefix (tag_label inst) (tag_label h @ r)) ?ext = Some (h, vh, mh)"
        by (simp add: find_append)
      have o1: "append_attrs styles rt = (tag_label h @ style_attrs vh mh) @ append_attrs styles r"
        using append_attrs_hit[OF f1] r by simp
      have o2: "append_attrs ?ext rt = (tag_label h @ style_attrs vh mh) @ append_attrs ?ext r"
        using append_attrs_hit[OF f2] r by simp
      have walk: "\<forall>k < length (tag_label h @ style_attrs vh mh).
                    \<not> prefix ?old (drop k (tag_label h @ style_attrs vh mh) @ append_attrs styles r)"
      proof (intro allI impI)
        fix k assume k: "k < length (tag_label h @ style_attrs vh mh)"
        show "\<not> prefix ?old (drop k (tag_label h @ style_attrs vh mh) @ append_attrs styles r)"
        proof (cases "k = 0")
          case True
          have "prefix (tag_label h) ((tag_label h @ style_attrs vh mh) @ append_attrs styles r)" by simp
          then have "\<not> prefix ?old ((tag_label h @ style_attrs vh mh) @ append_attrs styles r)"
            using label_prefix_same[OF gD(2) hD(2)] gh by blast
          then show ?thesis using True by simp
        next
          case False
          then show ?thesis using no_label_inside_styled[OF hD(1) hD(3) hD(4) _ k] by simp
        qed
      qed
      have "length r < length rt" using r by (simp add: tag_label_def)
      then have ih: "py_replace ?old ?new (append_attrs styles r) = append_attrs ?ext r" by (rule less)
      show ?thesis unfolding o1 o2 using py_replace_walk[OF _ walk, of ?new] ih by simp
    next
      case None
      then have none: "\<forall>s \<in> set styles. \<not> prefix (tag_label (fst s)) (c # cs)"
        unfolding find_None_iff by fastforce
      show ?thesis
      proof (cases "prefix ?old rt")
        case True
        then obtain r where r: "rt = ?old @ r" by (auto simp: prefix_def)
        have f2: "find (\<lambda>(inst, val, shape). prefix (tag_label inst) (?old @ r)) ?ext = Some (g, v, m)"
          using None r Cons True by (simp add: find_append)
        have o2: "append_attrs ?ext rt = ?old @ style_attrs v m @ append_attrs ?ext r"
          using append_attrs_hit[OF f2] r by simp
        have walk: "\<forall>k < length ?old. \<forall>s \<in> set styles. \<not> prefix (tag_label (fst s)) (drop k ?old @ r)"
        proof (intro allI impI ballI)
          fix k s assume k: "k < length ?old" and s: "s \<in> set styles"
          show "\<not> prefix (tag_label (fst s)) (drop k ?old @ r)"
          proof (cases "k = 0")
            case True
            then show ?thesis using none s r Cons by auto
          next
            case False
            then show ?thesis using no_label_inside_label[OF gD(1) _ k] by simp
          qed
        qed
        have o1: "append_attrs styles rt = ?old @ append_attrs styles r"
          using append_attrs_walk[OF walk] r by simp
        have "length r < length rt" using r by (simp add: tag_label_def)
        then have ih: "py_replace ?old ?new (append_attrs styles r) = append_attrs ?ext r" by (rule less)
        show ?thesis unfolding o1 o2 using ih by (simp add: py_replace_match)
      next
        case False
        then have none2: "\<forall>s \<in> set ?ext. \<not> prefix (tag_label (fst s)) (c # cs)"
          using none Cons by simp
        have o1: "append_attrs styles rt = c # append_attrs styles cs"
          using append_attrs_miss[OF none] Cons by simp
        have o2: "append_attrs ?ext rt = c # append_attrs ?ext cs"
          using append_attrs_miss[OF none2] Cons by simp
        have nop: "\<not> prefix ?old (c # append_attrs styles cs)"
        proof
          assume p: "prefix ?old (c # append_attrs styles cs)"
          then have c: "c = CHR ''t''" and p': "prefix ((''ag={'' @ g) @ ''}'') (append_attrs styles cs)"
            by (simp_all add: tag_label_def)
          have "CHR ''}'' \<notin> set (''ag={'' @ g)" using gD(2) by simp
          from append_attrs_agree[OF close this p'] have "prefix ?old (c # cs)"
            using c by (simp add: tag_label_def)
          then show False using False Cons by simp
        qed
        have "length cs < length rt" using Cons by simp
        then have ih: "py_replace ?old ?new (append_attrs styles cs) = append_attrs ?ext cs" by (rule less)
        show ?thesis unfolding o1 o2 using nop ih by (simp add: py_replace_skip)
      qed
    qed
  qed
qed

lemma append_attrs_no_styles: "append_attrs [] rt = rt"
  by (induction rt) (simp_all add: append_attrs_miss)

lemma style_patch_fold:
  assumes "distinct (map fst (done @ rest))"
    and "\<forall>s \<in> set (done @ rest). well_formed_style s"
    and "\<forall>(inst, val, shape) \<in> set rest. markers inst = Some shape"
  shows "style_patch (map (\<lambda>(inst, val, shape). (inst, val)) rest) markers (append_attrs done rt)
         = Inr (append_attrs (done @ rest) rt)"
  using assms
proof (induction rest arbitrary: "done")
  case Nil
  then show ?case by simp
next
  case (Cons s rest)
  obtain g v m where s: "s = (g, v, m)" by (cases s) auto
  have mk: "markers g = Some m" using Cons.prems(3) s by simp
  have d1: "distinct (map fst (done @ [(g, v, m)]))" using Cons.prems(1) s by simp
  have w1: "\<forall>s \<in> set (done @ [(g, v, m)]). well_formed_style s" using Cons.prems(2) s by simp
  have step: "py_replace (tag_label g) (styled_label g v m) (append_attrs done rt)
              = append_attrs (done @ [(g, v, m)]) rt"
    unfolding styled_label_eq by (rule py_replace_after_append_attrs[OF d1 w1])
  have "style_patch (map (\<lambda>(inst, val, shape). (inst, val)) rest) markers
          (append_attrs (done @ [(g, v, m)]) rt)
        = Inr (append_attrs ((done @ [(g, v, m)]) @ rest) rt)"
    using Cons.prems s by (intro Cons.IH) simp_all
  then show ?case using s mk step by simp
qed

lemma append_attrs_occurrence:
  assumes d: "distinct (map fst styles)"
    and wf: "\<forall>s \<in> set styles. well_formed_style s"
    and g: "(g, v, m) \<in> set styles"
  shows "append_attrs styles rt = a @ tag_label g @ b \<Longrightarrow> prefix (style_attrs v m) b"
proof (induction "length rt" arbitrary: rt a rule: less_induct)
  case less
  have gwf: "well_formed_style (g, v, m)" using wf g by blast
  note gD = well_formed_styleD[OF gwf]
  have close: "\<forall>s \<in> set styles. CHR ''}'' \<notin> set (fst s)"
    using wf by (auto simp: well_formed_style_def)
  show ?case
  proof (cases rt)
    case Nil
    then show ?thesis using less.prems by (simp add: tag_label_def)
  next
    case (Cons c cs)
    show ?thesis
    proof (cases "find (\<lambda>(inst, val, shape). prefix (tag_label inst) (c # cs)) styles")
      case (Some s)
      obtain h vh mh where s: "s = (h, vh, mh)" by (cases s) auto
      from find_SomeD[OF Some] have hp: "prefix (tag_label h) (c # cs)" and hin: "(h, vh, mh) \<in> set styles"
        using s by auto
      then obtain r where r: "rt = tag_label h @ r" using Cons by (auto simp: prefix_def)
      have hwf: "well_formed_style (h, vh, mh)" using wf hin by blast
      note hD = well_formed_styleD[OF hwf]
      let ?W = "tag_label h @ style_attrs vh mh"
      have f1: "find (\<lambda>(inst, val, shape). prefix (tag_label inst) (tag_label h @ r)) styles = Some (h, vh, mh)"
        using Some s r Cons by simp
      have o1: "append_attrs styles rt = ?W @ append_attrs styles r"
        using append_attrs_hit[OF f1] r by simp
      have eq: "a @ tag_label g @ b = ?W @ append_attrs styles r"
        using less.prems o1 by simp
      consider "a = []" | "0 < length a" "length a < length ?W" | "length ?W \<le> length a"
        by (cases "a = []"; cases "length a < length ?W") auto
      then show ?thesis
      proof cases
        case 1
        have e1: "tag_label g @ b = tag_label h @ (style_attrs vh mh @ append_attrs styles r)"
          using eq 1 by simp
        have "prefix (tag_label g) (tag_label g @ b)" by simp
        then have p1: "prefix (tag_label g) (tag_label h @ (style_attrs vh mh @ append_attrs styles r))"
          by (simp only: e1)
        have p2: "prefix (tag_label h) (tag_label h @ (style_attrs vh mh @ append_attrs styles r))"
          by simp
        have gh: "g = h" by (rule label_prefix_same[OF gD(2) hD(2) p1 p2])
        have "(h, v, m) \<in> set styles" using g gh by simp
        then have "(v, m) = (vh, mh)"
          by (rule eq_key_imp_eq_value[OF d _ hin])
        then have "b = style_attrs v m @ append_attrs styles r"
          using e1 gh by simp
        then show ?thesis by simp
      next
        case 2
        have "drop (length a) (a @ tag_label g @ b) = drop (length a) ?W @ append_attrs styles r"
          unfolding eq using 2(2) by simp
        then have e2: "tag_label g @ b = drop (length a) ?W @ append_attrs styles r" by simp
        have "prefix (tag_label g) (tag_label g @ b)" by simp
        then have p: "prefix (tag_label g) (drop (length a) ?W @ append_attrs styles r)"
          by (simp only: e2)
        from no_label_inside_styled[OF hD(1) hD(3) hD(4) 2(1) 2(2), of g "append_attrs styles r"] p
        show ?thesis by (rule notE)
      next
        case 3
        have "take (length ?W) (a @ tag_label g @ b) = ?W" unfolding eq by simp
        then have "take (length ?W) a = ?W" using 3 by simp
        then obtain a' where a': "a = ?W @ a'" by (metis append_take_drop_id)
        have e': "append_attrs styles r = a' @ tag_label g @ b"
          using eq unfolding a' by simp
        have l': "length r < length rt" using r by (simp add: tag_label_def)
        show ?thesis by (rule less.hyps[OF l' e'])
      qed
    next
      case None
      then have none: "\<forall>s \<in> set styles. \<not> prefix (tag_label (fst s)) (c # cs)"
        unfolding find_None_iff by fastforce
      have o1: "append_attrs styles rt = c # append_attrs styles cs"
        using append_attrs_miss[OF none] Cons by simp
      show ?thesis
      proof (cases a)
        case Nil
        then have "tag_label g @ b = c # append_attrs styles cs"
          using less.prems o1 by simp
        then have p: "prefix (tag_label g) (c # append_attrs styles cs)"
          by (metis prefixI)
        then have c: "c = CHR ''t''" and p': "prefix ((''ag={'' @ g) @ ''}'') (append_attrs styles cs)"
          by (simp_all add: tag_label_def)
        have "CHR ''}'' \<notin> set (''ag={'' @ g)" using gD(2) by simp
        from append_attrs_agree[OF close this p'] have "prefix (tag_label g) (c # cs)"
          using c by (simp add: tag_label_def)
        moreover have "\<not> prefix (tag_label (fst (g, v, m))) (c # cs)" using none g by blast
        ultimately show ?thesis by simp
      next
        case (Cons c' a')
        then have e': "append_attrs styles cs = a' @ tag_label g @ b" using less.prems o1 by simp
        have l': "length cs < length rt" using \<open>rt = c # cs\<close> by simp
        show ?thesis by (rule less.hyps[OF l' e'])
      qed
    qed
  qed
qed

text \<open>
  The notebook's own groups are well formed whenever no colour holds an opening brace, so
  for them the patch is the single pass, whatever the text.
\<close>

lemma suffix_short:
  "length p < length b \<Longrightarrow> suffix p (a @ b) = suffix p b"
  by (auto simp: suffix_append)

lemma style_attrs_safe:
  assumes "CHR ''{'' \<notin> set val" "shape \<in> {''cross'', ''circle''}"
  shows "CHR ''{'' \<notin> set (style_attrs val shape) \<and>
         (\<forall>p \<in> {''t'', ''ta'', ''tag'', ''tag=''}. \<not> suffix p (style_attrs val shape))"
proof -
  have a: "style_attrs val shape = ('' color='' @ val @ '' point='') @ shape"
    by (simp add: style_attrs_def)
  have "\<forall>p \<in> {''t'', ''ta'', ''tag'', ''tag=''}. \<not> suffix p shape"
    using assms(2) by (auto simp: suffix_def)
  moreover have "\<forall>p \<in> {''t'', ''ta'', ''tag'', ''tag=''}. length p < length shape"
    using assms(2) by auto
  ultimately have "\<forall>p \<in> {''t'', ''ta'', ''tag'', ''tag=''}. \<not> suffix p (style_attrs val shape)"
    unfolding a using suffix_short by blast
  moreover have "CHR ''{'' \<notin> set (style_attrs val shape)"
    using assms by (auto simp: style_attrs_def)
  ultimately show ?thesis by blast
qed

lemma novt_styles_well_formed:
  assumes "\<forall>c \<in> {c1, c2, c3, c4, c5}. CHR ''{'' \<notin> set c"
  shows "\<forall>s \<in> set (novt_styles c1 c2 c3 c4 c5). well_formed_style s"
  using assms style_attrs_safe
  by (simp add: novt_styles_def well_formed_style_def)

lemma novt_patch_appends_attrs:
  assumes "\<forall>c \<in> {c1, c2, c3, c4, c5}. CHR ''{'' \<notin> set c"
  shows "style_patch (novt_colors c1 c2 c3 c4 c5) novt_markers region_text
         = Inr (append_attrs (novt_styles c1 c2 c3 c4 c5) region_text)"
proof -
  have d: "distinct (map fst ([] @ novt_styles c1 c2 c3 c4 c5))" by (simp add: novt_styles_def)
  have w: "\<forall>s \<in> set ([] @ novt_styles c1 c2 c3 c4 c5). well_formed_style s"
    using novt_styles_well_formed[OF assms] by simp
  have m: "\<forall>(inst, val, shape) \<in> set (novt_styles c1 c2 c3 c4 c5). novt_markers inst = Some shape"
    by (simp add: novt_styles_def novt_markers_def)
  have c: "map (\<lambda>(inst, val, shape). (inst, val)) (novt_styles c1 c2 c3 c4 c5) = novt_colors c1 c2 c3 c4 c5"
    by (simp add: novt_styles_def novt_colors_def)
  from style_patch_fold[OF d w m, of region_text] show ?thesis
    unfolding c by (simp add: append_attrs_no_styles)
qed

text \<open>
  Well-formedness is needed: a colour that holds the tag label of a later group is patched
  again by the later pass, which the single pass does not do.
\<close>

lemma style_patch_interference:
  "style_patch [(''a'', ''tag={b}''), (''b'', ''red'')] [''a'' \<mapsto> ''x'', ''b'' \<mapsto> ''x''] ''tag={a}''
     = Inr ''tag={a} color=tag={b} color=red point=x point=x'' \<and>
   append_attrs [(''a'', ''tag={b}'', ''x''), (''b'', ''red'', ''x'')] ''tag={a}''
     = ''tag={a} color=tag={b} point=x''"
  by code_simp

text \<open>
  Claim C3. For styles with distinct, well-formed entries whose markers are all configured,
  the loop of textual replacements returns the serialized text in which every occurrence of
  the tag label of a configured group is followed immediately by that group's
  \<^verbatim>\<open> color=<value> point=<shape>\<close>: the result is the single pass
  \<open>append_attrs\<close>, and wherever a configured tag label stands in the patched text, the
  attributes of its group come next.
\<close>

theorem style_patch_appends_attrs:
  assumes "distinct (map fst styles)"
    and "\<forall>s \<in> set styles. well_formed_style s"
    and "\<forall>(inst, val, shape) \<in> set styles. markers inst = Some shape"
  shows "style_patch (map (\<lambda>(inst, val, shape). (inst, val)) styles) markers region_text
           = Inr (append_attrs styles region_text) \<and>
         (\<forall>(inst, val, shape) \<in> set styles. \<forall>a b.
            append_attrs styles region_text = a @ tag_label inst @ b
              \<longrightarrow> prefix (style_attrs val shape) b)"
proof
  show "style_patch (map (\<lambda>(inst, val, shape). (inst, val)) styles) markers region_text
           = Inr (append_attrs styles region_text)"
    using style_patch_fold[of "[]" styles markers region_text] assms
    by (simp add: append_attrs_no_styles)
next
  show "\<forall>(inst, val, shape) \<in> set styles. \<forall>a b.
            append_attrs styles region_text = a @ tag_label inst @ b
              \<longrightarrow> prefix (style_attrs val shape) b"
    using append_attrs_occurrence[OF assms(1,2)] by blast
qed

theorem style_patch_appends_attrs_witness:
  "style_patch (novt_colors ''red'' ''blue'' ''green'' ''cyan'' ''pink'') novt_markers
     ''polygon(1,2) # tag={NIRSpec} / point(3,4) # tag={primary}''
   = Inr ''polygon(1,2) # tag={NIRSpec} color=red point=cross / point(3,4) # tag={primary} color=cyan point=circle'' \<and>
   prefix (style_attrs ''red'' ''cross'')
     '' color=red point=cross / point(3,4) # tag={primary} color=cyan point=circle''"
proof -
  let ?styles = "[(''NIRSpec'', ''red'', ''cross''), (''NIRCam Short'', ''blue'', ''cross''),
                  (''NIRCam Long'', ''green'', ''cross''), (''primary'', ''cyan'', ''circle''),
                  (''filler'', ''pink'', ''circle'')]"
  let ?T = "''polygon(1,2) # tag={NIRSpec} / point(3,4) # tag={primary}''"
  let ?P = "''polygon(1,2) # tag={NIRSpec} color=red point=cross / point(3,4) # tag={primary} color=cyan point=circle''"
  have d: "distinct (map fst ?styles)" by simp
  have wf: "\<forall>s \<in> set ?styles. well_formed_style s" by code_simp
  have mk: "\<forall>(inst, val, shape) \<in> set ?styles. novt_markers inst = Some shape"
    by (simp add: novt_markers_def)
  have cols: "map (\<lambda>(inst, val, shape). (inst, val)) ?styles
              = novt_colors ''red'' ''blue'' ''green'' ''cyan'' ''pink''"
    by (simp add: novt_colors_def)
  have out: "append_attrs ?styles ?T = ?P" by code_simp
  have dec: "?P = ''polygon(1,2) # '' @ tag_label ''NIRSpec'' @
      '' color=red point=cross / point(3,4) # tag={primary} color=cyan point=circle''"
    by (simp add: tag_label_def)
  note main = style_patch_appends_attrs [OF d wf mk, of ?T]
  from main have run: "style_patch (novt_colors ''red'' ''blue'' ''green'' ''cyan'' ''pink'') novt_markers ?T = Inr ?P"
    unfolding cols out by blast
  from main have "\<forall>a b. ?P = a @ tag_label ''NIRSpec'' @ b \<longrightarrow> prefix (style_attrs ''red'' ''cross'') b"
    unfolding out by simp
  with dec have "prefix (style_attrs ''red'' ''cross'')
     '' color=red point=cross / point(3,4) # tag={primary} color=cyan point=circle''"
    by blast
  with run show ?thesis by blast
qed

subsection \<open>What the patch leaves alone\<close>

lemma py_replace_inserted_after:
  "inserted_after old ins rt (py_replace old (old @ ins) rt)"
proof (cases "old = []")
  case True
  have "inserted_after [] ins rt (concat (map (\<lambda>c. ins @ [c]) rt) @ ins)"
  proof (induction rt)
    case Nil
    have "inserted_after [] ins ([] @ []) ([] @ ins @ [])"
      by (rule inserted_after.attrs) (rule inserted_after.nil)
    then show ?case by simp
  next
    case (Cons c cs)
    have "inserted_after [] ins (c # cs) (c # concat (map (\<lambda>c. ins @ [c]) cs) @ ins)"
      using Cons by (rule inserted_after.keep)
    then have "inserted_after [] ins ([] @ c # cs) ([] @ ins @ c # concat (map (\<lambda>c. ins @ [c]) cs) @ ins)"
      by (rule inserted_after.attrs)
    then show ?case by simp
  qed
  with True show ?thesis by (simp add: py_replace_empty_old)
next
  case False
  show ?thesis
  proof (induction "length rt" arbitrary: rt rule: less_induct)
    case less
    show ?case
    proof (cases rt)
      case Nil
      then show ?thesis using False by (simp add: inserted_after.nil)
    next
      case (Cons c cs)
      show ?thesis
      proof (cases "prefix old rt")
        case True
        then obtain r where r: "rt = old @ r" by (auto simp: prefix_def)
        have "length r < length rt" using r False by simp
        then have "inserted_after old ins r (py_replace old (old @ ins) r)" by (rule less)
        then have "inserted_after old ins (old @ r) (old @ ins @ py_replace old (old @ ins) r)"
          by (rule inserted_after.attrs)
        then show ?thesis using r False by (simp add: py_replace_match)
      next
        case nop: False
        have "inserted_after old ins cs (py_replace old (old @ ins) cs)" using Cons by (intro less) simp
        then have "inserted_after old ins (c # cs) (c # py_replace old (old @ ins) cs)"
          by (rule inserted_after.keep)
        then show ?thesis using nop False Cons by (simp add: py_replace_skip)
      qed
    qed
  qed
qed

lemma style_patch_passes:
  "style_patch colors markers rt = Inr patched \<Longrightarrow> patch_passes colors markers rt patched"
proof (induction colors markers rt arbitrary: patched rule: style_patch.induct)
  case (1 markers region_text)
  then show ?case by (simp add: patch_passes.finished)
next
  case (2 inst val rest markers region_text)
  then obtain shape where s: "markers inst = Some shape" by (auto split: option.splits)
  let ?mid = "py_replace (tag_label inst) (styled_label inst val shape) region_text"
  have a: "inserted_after (tag_label inst) (style_attrs val shape) region_text ?mid"
    unfolding styled_label_eq by (rule py_replace_inserted_after)
  have "style_patch rest markers ?mid = Inr patched" using 2(2) s by simp
  then have "patch_passes rest markers ?mid patched" using 2(1)[OF s] by simp
  with s a show ?case by (rule patch_passes.pass)
qed

lemma append_attrs_inserted: "attrs_inserted styles rt (append_attrs styles rt)"
proof (induction "length rt" arbitrary: rt rule: less_induct)
  case less
  show ?case
  proof (cases rt)
    case Nil
    then show ?thesis by (simp add: attrs_inserted.nil)
  next
    case (Cons c cs)
    show ?thesis
    proof (cases "find (\<lambda>(inst, val, shape). prefix (tag_label inst) (c # cs)) styles")
      case None
      have "attrs_inserted styles cs (append_attrs styles cs)" using Cons by (intro less) simp
      then have "attrs_inserted styles (c # cs) (c # append_attrs styles cs)"
        by (rule attrs_inserted.keep)
      then show ?thesis using None Cons by (simp add: append_attrs.simps(2))
    next
      case (Some s)
      obtain g v m where s: "s = (g, v, m)" by (cases s) auto
      from find_SomeD[OF Some] have gp: "prefix (tag_label g) (c # cs)" and gin: "(g, v, m) \<in> set styles"
        using s by auto
      then obtain r where r: "rt = tag_label g @ r" using Cons by (auto simp: prefix_def)
      have f1: "find (\<lambda>(inst, val, shape). prefix (tag_label inst) (tag_label g @ r)) styles = Some (g, v, m)"
        using Some s r Cons by simp
      have "length r < length rt" using r by (simp add: tag_label_def)
      then have "attrs_inserted styles r (append_attrs styles r)" by (rule less)
      with gin have "attrs_inserted styles (tag_label g @ r) (tag_label g @ style_attrs v m @ append_attrs styles r)"
        by (rule attrs_inserted.attrs)
      then show ?thesis using append_attrs_hit[OF f1] r by simp
    qed
  qed
qed

lemma attrs_inserted_first_change:
  "attrs_inserted styles rt out \<Longrightarrow> rt \<noteq> out \<Longrightarrow>
   \<exists>a inst val shape b out'. (inst, val, shape) \<in> set styles \<and>
      rt = a @ tag_label inst @ b \<and> out = a @ tag_label inst @ style_attrs val shape @ out'"
proof (induction rule: attrs_inserted.induct)
  case nil
  then show ?case by simp
next
  case (keep rt out c)
  from keep.prems have "rt \<noteq> out" by simp
  from keep.IH[OF this] obtain a inst val shape b out' where "(inst, val, shape) \<in> set styles"
    "rt = a @ tag_label inst @ b" "out = a @ tag_label inst @ style_attrs val shape @ out'"
    by blast
  then have "(inst, val, shape) \<in> set styles \<and> c # rt = (c # a) @ tag_label inst @ b \<and>
     c # out = (c # a) @ tag_label inst @ style_attrs val shape @ out'" by simp
  then show ?case by blast
next
  case (attrs inst val shape rt out)
  then have "(inst, val, shape) \<in> set styles \<and> tag_label inst @ rt = [] @ tag_label inst @ rt \<and>
     tag_label inst @ style_attrs val shape @ out = [] @ tag_label inst @ style_attrs val shape @ out"
    by simp
  then show ?case by blast
qed

text \<open>
  The relation is strict: attributes written inside the coordinates are not an insertion
  after a tag label, whatever the styles.
\<close>

lemma attrs_not_inside_coordinates:
  "\<not> attrs_inserted styles ''polygon(1,2) # tag={NIRSpec}''
       ''polygon(1,2 color=red point=cross) # tag={NIRSpec}''"
proof
  let ?T = "''polygon(1,2) # tag={NIRSpec}''"
  let ?B = "''polygon(1,2 color=red point=cross) # tag={NIRSpec}''"
  assume "attrs_inserted styles ?T ?B"
  moreover have "?T \<noteq> ?B" by simp
  ultimately obtain a inst val shape b out' where
    t: "?T = a @ tag_label inst @ b" and b: "?B = a @ tag_label inst @ style_attrs val shape @ out'"
    using attrs_inserted_first_change by blast
  let ?p = "a @ ''tag={''"
  have pt: "?T = ?p @ (inst @ ''}'' @ b)" using t by (simp add: tag_label_def)
  have pb: "?B = ?p @ (inst @ ''}'' @ style_attrs val shape @ out')" using b by (simp add: tag_label_def)
  have len: "length ?p \<le> 11"
  proof (rule ccontr)
    assume "\<not> length ?p \<le> 11"
    then have l: "11 < length ?p" by simp
    have "?T ! 11 = ?p ! 11" by (subst pt) (simp only: nth_append l if_True)
    moreover have "?B ! 11 = ?p ! 11" by (subst pb) (simp only: nth_append l if_True)
    ultimately have "?T ! 11 = ?B ! 11" by simp
    then show False by simp
  qed
  have "take (length ?p) ?T = ?p" by (subst pt) simp
  then have "set ?p \<subseteq> set (take 11 ?T)"
    using len by (metis set_take_subset_set_take)
  moreover have "CHR ''{'' \<in> set ?p" by simp
  moreover have "CHR ''{'' \<notin> set (take 11 ?T)" by simp
  ultimately show False by blast
qed

text \<open>
  Claim C10. The style patch changes nothing but what it inserts. Every pass keeps every
  character and puts its attributes only immediately after its own tag label; for the
  notebook's kind of styles (distinct, well formed, every marker configured) the patched text
  is the serialized text with attributes standing only immediately after a configured tag
  label, so coordinates, shapes, headers and the labels themselves are the same byte for byte.
  The serialized text is a subsequence of the patched text, a text without a configured tag
  label is returned as it is, and (group names holding no line break) the patch works line by
  line, so that a line without a configured tag label is the same before and after.
\<close>

theorem style_patch_frame:
  assumes "style_patch colors markers region_text = Inr patched"
  shows "patch_passes colors markers region_text patched \<and>
         (\<forall>styles. colors = map (\<lambda>(inst, val, shape). (inst, val)) styles \<and>
                   distinct (map fst styles) \<and> (\<forall>s \<in> set styles. well_formed_style s) \<and>
                   (\<forall>(inst, val, shape) \<in> set styles. markers inst = Some shape)
            \<longrightarrow> attrs_inserted styles region_text patched) \<and>
         subseq region_text patched \<and>
         ((\<forall>(inst, val) \<in> set colors. \<not> sublist (tag_label inst) region_text)
            \<longrightarrow> patched = region_text) \<and>
         (\<forall>ls. (\<forall>(inst, val) \<in> set colors. CHR 0x0A \<notin> set inst) \<and> region_text = join_lines ls
            \<longrightarrow> (\<exists>ls'. patched = join_lines ls' \<and> length ls' = length ls \<and>
                   (\<forall>i < length ls.
                      style_patch colors markers (ls ! i) = Inr (ls' ! i) \<and>
                      ((\<forall>(inst, val) \<in> set colors. \<not> sublist (tag_label inst) (ls ! i))
                         \<longrightarrow> ls' ! i = ls ! i))))"
proof (intro conjI allI impI)
  show "patch_passes colors markers region_text patched" using assms by (rule style_patch_passes)
next
  fix styles
  assume h: "colors = map (\<lambda>(inst, val, shape). (inst, val)) styles \<and>
             distinct (map fst styles) \<and> (\<forall>s \<in> set styles. well_formed_style s) \<and>
             (\<forall>(inst, val, shape) \<in> set styles. markers inst = Some shape)"
  then have d: "distinct (map fst ([] @ styles))" and w: "\<forall>s \<in> set ([] @ styles). well_formed_style s"
    and m: "\<forall>(inst, val, shape) \<in> set styles. markers inst = Some shape" by simp_all
  from style_patch_fold[OF d w m, of region_text] h assms
  have "patched = append_attrs styles region_text" by (simp add: append_attrs_no_styles)
  then show "attrs_inserted styles region_text patched" by (simp add: append_attrs_inserted)
next
  show "subseq region_text patched" using assms by (rule style_patch_subseq)
next
  assume "\<forall>(inst, val) \<in> set colors. \<not> sublist (tag_label inst) region_text"
  with assms show "patched = region_text" by (rule style_patch_absent)
next
  fix ls
  assume h: "(\<forall>(inst, val) \<in> set colors. CHR 0x0A \<notin> set inst) \<and> region_text = join_lines ls"
  then have nl: "\<forall>(inst, val) \<in> set colors. CHR 0x0A \<notin> set (tag_label inst)"
    by (auto simp: tag_label_def)
  from h assms have "style_patch colors markers (join_lines ls) = Inr patched" by simp
  from style_patch_lines[OF nl this] obtain ls' where ls':
    "patched = join_lines ls'" "length ls' = length ls"
    "\<forall>i < length ls. style_patch colors markers (ls ! i) = Inr (ls' ! i)" by blast
  have "\<forall>i < length ls. style_patch colors markers (ls ! i) = Inr (ls' ! i) \<and>
          ((\<forall>(inst, val) \<in> set colors. \<not> sublist (tag_label inst) (ls ! i)) \<longrightarrow> ls' ! i = ls ! i)"
    using ls'(3) style_patch_absent by blast
  with ls'(1,2) show "\<exists>ls'. patched = join_lines ls' \<and> length ls' = length ls \<and>
       (\<forall>i < length ls. style_patch colors markers (ls ! i) = Inr (ls' ! i) \<and>
          ((\<forall>(inst, val) \<in> set colors. \<not> sublist (tag_label inst) (ls ! i)) \<longrightarrow> ls' ! i = ls ! i))"
    by blast
qed

theorem style_patch_frame_witness:
  "style_patch (novt_colors ''red'' ''blue'' ''green'' ''cyan'' ''pink'') novt_markers
     (join_lines [''# Region file format: DS9'', ''polygon(1,2) # tag={NIRSpec}'',
                  ''point(3,4) # tag={other}''])
   = Inr (join_lines [''# Region file format: DS9'',
                      ''polygon(1,2) # tag={NIRSpec} color=red point=cross'',
                      ''point(3,4) # tag={other}'']) \<and>
   patch_passes (novt_colors ''red'' ''blue'' ''green'' ''cyan'' ''pink'') novt_markers
     (join_lines [''# Region file format: DS9'', ''polygon(1,2) # tag={NIRSpec}'',
                  ''point(3,4) # tag={other}''])
     (join_lines [''# Region file format: DS9'',
                  ''polygon(1,2) # tag={NIRSpec} color=red point=cross'',
                  ''point(3,4) # tag={other}'']) \<and>
   attrs_inserted (novt_styles ''red'' ''blue'' ''green'' ''cyan'' ''pink'')
     (join_lines [''# Region file format: DS9'', ''polygon(1,2) # tag={NIRSpec}'',
                  ''point(3,4) # tag={other}''])
     (join_lines [''# Region file format: DS9'',
                  ''polygon(1,2) # tag={NIRSpec} color=red point=cross'',
                  ''point(3,4) # tag={other}'']) \<and>
   subseq
     (join_lines [''# Region file format: DS9'', ''polygon(1,2) # tag={NIRSpec}'',
                  ''point(3,4) # tag={other}''])
     (join_lines [''# Region file format: DS9'',
                  ''polygon(1,2) # tag={NIRSpec} color=red point=cross'',
                  ''point(3,4) # tag={other}'']) \<and>
   (\<exists>ls'. join_lines [''# Region file format: DS9'',
                         ''polygon(1,2) # tag={NIRSpec} color=red point=cross'',
                         ''point(3,4) # tag={other}''] = join_lines ls' \<and>
          length ls' = 3 \<and> ls' ! 2 = ''point(3,4) # tag={other}'')"
proof -
  let ?C = "novt_colors ''red'' ''blue'' ''green'' ''cyan'' ''pink''"
  let ?S = "novt_styles ''red'' ''blue'' ''green'' ''cyan'' ''pink''"
  let ?ls = "[''# Region file format: DS9'', ''polygon(1,2) # tag={NIRSpec}'',
              ''point(3,4) # tag={other}'']"
  let ?P = "join_lines [''# Region file format: DS9'',
                        ''polygon(1,2) # tag={NIRSpec} color=red point=cross'',
                        ''point(3,4) # tag={other}'']"
  have run: "style_patch ?C novt_markers (join_lines ?ls) = Inr ?P"
    by code_simp
  have names: "\<forall>(inst, val) \<in> set ?C. CHR 0x0A \<notin> set inst"
    by code_simp
  have untagged: "\<forall>(inst, val) \<in> set ?C. \<not> sublist (tag_label inst) (?ls ! 2)"
    by code_simp
  have styles: "?C = map (\<lambda>(inst, val, shape). (inst, val)) ?S \<and>
                distinct (map fst ?S) \<and> (\<forall>s \<in> set ?S. well_formed_style s) \<and>
                (\<forall>(inst, val, shape) \<in> set ?S. novt_markers inst = Some shape)"
    by code_simp
  note frame = style_patch_frame [OF run]
  from frame have passes: "patch_passes ?C novt_markers (join_lines ?ls) ?P" by blast
  from frame styles have ins: "attrs_inserted ?S (join_lines ?ls) ?P" by blast
  from frame have sub: "subseq (join_lines ?ls) ?P" by blast
  from frame names obtain ls' where ls': "?P = join_lines ls'" "length ls' = length ?ls"
    "\<forall>i < length ?ls. style_patch ?C novt_markers (?ls ! i) = Inr (ls' ! i) \<and>
       ((\<forall>(inst, val) \<in> set ?C. \<not> sublist (tag_label inst) (?ls ! i)) \<longrightarrow> ls' ! i = ?ls ! i)"
    by blast
  from ls'(3) untagged have "ls' ! 2 = ?ls ! 2" by simp
  with ls'(1,2) have "\<exists>ls'. ?P = join_lines ls' \<and> length ls' = 3 \<and> ls' ! 2 = ''point(3,4) # tag={other}''"
    by auto
  with run passes ins sub show ?thesis by blast
qed

section \<open>Properties of the modelled operations\<close>

lemma collect_Inr:
  "collect f xs = Inr ys \<Longrightarrow>
   length ys = length xs \<and> (\<forall>i < length xs. f (xs ! i) = Inr (ys ! i))"
proof (induction xs arbitrary: ys)
  case Nil
  then show ?case by simp
next
  case (Cons x xs)
  from Cons.prems obtain y ys' where y: "f x = Inr y" and ys': "collect f xs = Inr ys'"
    and ys: "ys = y # ys'"
    by (auto split: sum.splits)
  from Cons.IH[OF ys'] show ?case using y ys by (auto simp: nth_Cons split: nat.splits)
qed


lemma collect_total:
  "\<forall>x \<in> set xs. \<exists>y. f x = Inr y \<Longrightarrow> \<exists>ys. collect f xs = Inr ys"
proof (induction xs)
  case Nil
  then show ?case by simp
next
  case (Cons x xs)
  then obtain y ys where "f x = Inr y" "collect f xs = Inr ys" by auto
  then show ?case by simp
qed


lemma aperture_region_Inr:
  "corners lib name = Inr vs \<Longrightarrow>
   aperture_region lib ra dec pa off name
     = Inr (PolygonSkyRegion name (map (to_sky lib ra dec pa off) vs) pa off)"
  by (simp add: aperture_region_def)


lemma aperture_region_cases:
  "aperture_region lib ra dec pa off name = Inr r \<Longrightarrow>
   \<exists>vs. corners lib name = Inr vs \<and> r = PolygonSkyRegion name (map (to_sky lib ra dec pa off) vs) pa off"
  by (auto simp: aperture_region_def split: sum.splits)

lemma footprint_no_center:
  assumes "footprint lib ra dec pa off False names = Inr rs"
  shows "length rs = length names \<and>
         (\<forall>i < length names. \<exists>vs. corners lib (names ! i) = Inr vs \<and>
            rs ! i = PolygonSkyRegion (names ! i) (map (to_sky lib ra dec pa off) vs) pa off)"
proof -
  from assms have c: "collect (aperture_region lib ra dec pa off) names = Inr rs"
    by (auto simp: footprint_def split: sum.splits)
  from collect_Inr[OF c] show ?thesis using aperture_region_cases by blast
qed

lemma footprint_total:
  assumes "\<forall>a \<in> set names. \<exists>vs. corners lib a = Inr vs"
  shows "\<exists>rs. footprint lib ra dec pa off include_center names = Inr rs"
proof -
  have "\<forall>a \<in> set names. \<exists>r. aperture_region lib ra dec pa off a = Inr r"
    using assms aperture_region_Inr by blast
  from collect_total[OF this] show ?thesis by (auto simp: footprint_def)
qed



lemma length_pointings: "length (pointings ts ds) = length ts * length ds"
  by (induction ts) (simp_all add: pointings_def)

lemma length_tiles: "length (tiles lib add_mosaic mo) = (if add_mosaic then 2 else 1)"
  by (simp add: tiles_def)

lemma length_concat_const:
  "\<forall>x \<in> set xss. length x = n \<Longrightarrow> length (concat xss) = length xss * n"
  by (induction xss) simp_all

lemma dither_footprint_count:
  assumes names: "\<forall>a \<in> set (nircam_names lib chan). \<exists>vs. corners lib a = Inr vs"
    and ds: "dither_points lib dither_pattern = Inr ds"
  shows "\<exists>rs. nircam_dither_footprint lib ra dec pa chan False dither_pattern add_mosaic mo = Inr rs \<and>
           length rs = (if add_mosaic then 2 else 1) * length ds * length (nircam_names lib chan)"
proof -
  let ?f = "\<lambda>off. footprint lib ra dec pa off False (nircam_names lib chan)"
  let ?ps = "pointings (tiles lib add_mosaic mo) ds"
  have "\<forall>off \<in> set ?ps. \<exists>rs. ?f off = Inr rs" using footprint_total[OF names] by blast
  from collect_total[OF this] obtain fs where fs: "collect ?f ?ps = Inr fs" by blast
  from collect_Inr[OF fs] have len: "length fs = length ?ps"
    and each: "\<forall>i < length ?ps. ?f (?ps ! i) = Inr (fs ! i)" by blast+
  have "\<forall>x \<in> set fs. length x = length (nircam_names lib chan)"
  proof
    fix x assume "x \<in> set fs"
    then obtain i where i: "i < length fs" "x = fs ! i" by (auto simp: in_set_conv_nth)
    then have "?f (?ps ! i) = Inr x" using each len by simp
    from footprint_no_center[OF this] show "length x = length (nircam_names lib chan)" by blast
  qed
  from length_concat_const[OF this]
  have "length (concat fs) = (if add_mosaic then 2 else 1) * length ds * length (nircam_names lib chan)"
    using len by (simp add: length_pointings length_tiles)
  moreover have "nircam_dither_footprint lib ra dec pa chan False dither_pattern add_mosaic mo = Inr (concat fs)"
    using ds fs by (simp add: nircam_dither_footprint_def)
  ultimately show ?thesis by blast
qed

text \<open>
  Claim C2. With no dither pattern, no mosaic and the center point left out, the footprint
  functions return one polygon region for each requested aperture, in the order of the
  request, whenever the aperture library knows every requested name.
\<close>

theorem footprint_one_region_per_aperture:
  "((\<forall>a \<in> set names. \<exists>vs. corners lib a = Inr vs) \<longrightarrow>
      (\<exists>rs. nirspec_footprint lib ra dec pa False (Some names) = Inr rs \<and>
            length rs = length names \<and>
            (\<forall>i < length names. \<exists>vs. rs ! i = PolygonSkyRegion (names ! i) vs pa (0, 0)))) \<and>
   ((\<forall>a \<in> set (nircam_names lib chan). \<exists>vs. corners lib a = Inr vs) \<longrightarrow>
      (\<exists>rs. nircam_dither_footprint lib ra dec pa chan False None False mosaic_offset = Inr rs \<and>
            length rs = length (nircam_names lib chan)))"
proof (intro conjI impI)
  assume ok: "\<forall>a \<in> set names. \<exists>vs. corners lib a = Inr vs"
  from footprint_total[OF ok] obtain rs where rs: "footprint lib ra dec pa (0, 0) False names = Inr rs"
    by blast
  from footprint_no_center[OF rs]
  have "length rs = length names \<and>
        (\<forall>i < length names. \<exists>vs. rs ! i = PolygonSkyRegion (names ! i) vs pa (0, 0))"
    by blast
  then show "\<exists>rs. nirspec_footprint lib ra dec pa False (Some names) = Inr rs \<and>
            length rs = length names \<and>
            (\<forall>i < length names. \<exists>vs. rs ! i = PolygonSkyRegion (names ! i) vs pa (0, 0))"
    using rs by (simp add: nirspec_footprint_def)
next
  assume ok: "\<forall>a \<in> set (nircam_names lib chan). \<exists>vs. corners lib a = Inr vs"
  have "dither_points lib None = Inr [(0, 0)]" by (simp add: dither_points_def)
  from dither_footprint_count[OF ok this, of ra dec pa False mosaic_offset]
  show "\<exists>rs. nircam_dither_footprint lib ra dec pa chan False None False mosaic_offset = Inr rs \<and>
            length rs = length (nircam_names lib chan)"
    by simp
qed

theorem footprint_one_region_per_aperture_witness:
  "\<exists>rs. nirspec_footprint demo_library 202 47 270 False (Some [''NRS_FULL_MSA1'', ''NRS_FULL_MSA2''])
          = Inr rs \<and> length rs = 2"
proof -
  have "\<forall>a \<in> set [''NRS_FULL_MSA1'', ''NRS_FULL_MSA2'']. \<exists>vs. corners demo_library a = Inr vs"
    by (simp add: demo_library_def)
  with footprint_one_region_per_aperture
         [of "[''NRS_FULL_MSA1'', ''NRS_FULL_MSA2'']" demo_library 202 47 270]
  obtain rs where
    "nirspec_footprint demo_library 202 47 270 False (Some [''NRS_FULL_MSA1'', ''NRS_FULL_MSA2'']) = Inr rs"
    "length rs = length [''NRS_FULL_MSA1'', ''NRS_FULL_MSA2'']"
    by blast
  then show ?thesis by (intro exI[of _ rs]) simp
qed











lemma flag_not_primary: "(f \<noteq> Primary) = (f = Filler)"
  by (cases f) simp_all

text \<open>
  Claim C4. When the catalog file can be read, every row flagged P gives a point region at
  the row's coordinates in the primary collection and every row flagged F gives one in the
  filler collection; every point of either collection comes from a row that is not flagged
  for the other, and the two collections together hold one point for each row.
\<close>

theorem source_catalog_partition:
  assumes "read_table catalog_file = Inr rows"
  shows "\<exists>primary filler.
           source_catalog read_table unflagged catalog_file = Inr (primary, filler) \<and>
           (\<forall>r \<in> set rows. row_flag r = Some Primary \<longrightarrow>
              PointSkyRegion (row_ra r, row_dec r) \<in> set primary) \<and>
           (\<forall>r \<in> set rows. row_flag r = Some Filler \<longrightarrow>
              PointSkyRegion (row_ra r, row_dec r) \<in> set filler) \<and>
           (\<forall>p \<in> set primary. \<exists>r \<in> set rows. row_flag r \<noteq> Some Filler \<and>
              p = PointSkyRegion (row_ra r, row_dec r)) \<and>
           (\<forall>p \<in> set filler. \<exists>r \<in> set rows. row_flag r \<noteq> Some Primary \<and>
              p = PointSkyRegion (row_ra r, row_dec r)) \<and>
           length primary + length filler = length rows"
proof -
  let ?P = "\<lambda>r. flag_of unflagged r = Primary"
  let ?F = "\<lambda>r. flag_of unflagged r = Filler"
  let ?primary = "map source_point (filter ?P rows)"
  let ?filler = "map source_point (filter ?F rows)"
  have run: "source_catalog read_table unflagged catalog_file = Inr (?primary, ?filler)"
    using assms by (simp add: source_catalog_def)
  have p: "\<forall>r \<in> set rows. row_flag r = Some Primary \<longrightarrow>
              PointSkyRegion (row_ra r, row_dec r) \<in> set ?primary"
    by (auto simp: flag_of_def source_point_def image_iff)
  have f: "\<forall>r \<in> set rows. row_flag r = Some Filler \<longrightarrow>
              PointSkyRegion (row_ra r, row_dec r) \<in> set ?filler"
    by (auto simp: flag_of_def source_point_def image_iff)
  have p': "\<forall>p \<in> set ?primary. \<exists>r \<in> set rows. row_flag r \<noteq> Some Filler \<and>
              p = PointSkyRegion (row_ra r, row_dec r)"
    by (fastforce simp: flag_of_def source_point_def split: option.splits)
  have f': "\<forall>p \<in> set ?filler. \<exists>r \<in> set rows. row_flag r \<noteq> Some Primary \<and>
              p = PointSkyRegion (row_ra r, row_dec r)"
    by (fastforce simp: flag_of_def source_point_def split: option.splits)
  have "filter ?F rows = filter (\<lambda>r. \<not> ?P r) rows" by (simp add: flag_not_primary)
  then have n: "length ?primary + length ?filler = length rows"
    using sum_length_filter_compl[of ?P rows] by simp
  show ?thesis using run p f p' f' n by blast
qed

theorem source_catalog_partition_witness:
  "\<exists>primary filler.
     source_catalog demo_read_table Primary ''m51.radec'' = Inr (primary, filler) \<and>
     PointSkyRegion (202, 47) \<in> set primary \<and> PointSkyRegion (203, 48) \<in> set filler \<and>
     length primary + length filler = 3"
proof -
  let ?rows = "[\<lparr>row_ra = 202, row_dec = 47, row_flag = Some Primary\<rparr>,
                \<lparr>row_ra = 203, row_dec = 48, row_flag = Some Filler\<rparr>,
                \<lparr>row_ra = 204, row_dec = 49, row_flag = None\<rparr>]"
  have rd: "demo_read_table ''m51.radec'' = Inr ?rows" by (simp add: demo_read_table_def)
  from source_catalog_partition[of demo_read_table "''m51.radec''" ?rows Primary, OF rd]
  obtain primary filler where
    run: "source_catalog demo_read_table Primary ''m51.radec'' = Inr (primary, filler)"
    and p: "\<forall>r \<in> set ?rows. row_flag r = Some Primary \<longrightarrow>
              PointSkyRegion (row_ra r, row_dec r) \<in> set primary"
    and f: "\<forall>r \<in> set ?rows. row_flag r = Some Filler \<longrightarrow>
              PointSkyRegion (row_ra r, row_dec r) \<in> set filler"
    and n: "length primary + length filler = length ?rows"
    by blast
  from p have "PointSkyRegion (202, 47) \<in> set primary" by simp
  moreover from f have "PointSkyRegion (203, 48) \<in> set filler" by simp
  moreover from n have "length primary + length filler = 3" by simp
  ultimately show ?thesis using run by blast
qed





end
